theory Spec2Isabelle
  imports Main "HOL-Library.AList"
begin

section \<open>Errors\<close>

text \<open>
  The exceptions the Python code can raise, as values. A function that can raise returns
  \<open>error + 'a\<close>, with \<open>Inl\<close> for the exception. \<open>KeyError\<close> carries the missing key.
  \<open>DoesNotExist\<close> and \<open>Other\<close> stand for what the Django and tastypie calls made by the
  code may raise.
\<close>

datatype error = ValueError | KeyError string | AttributeError | DoesNotExist | Other string

section \<open>models.py: SluggedModel\<close>

subsection \<open>Rendering the counter: \<open>'-%s' % next\<close>\<close>

text \<open>
  \<open>next\<close> starts at 2 and is only incremented, so it is a natural number;
  \<open>str_nat\<close> is its decimal rendering, as \<open>%s\<close> gives it.
\<close>


definition digit_char :: "nat \<Rightarrow> char" where
  "digit_char d = char_of (48 + d)"

fun str_nat :: "nat \<Rightarrow> string" where
  "str_nat n = (if n < 10 then [digit_char n] else str_nat (n div 10) @ [digit_char (n mod 10)])"

declare str_nat.simps [simp del]

text \<open>
  Python's \<open>xs[:i]\<close>: a negative \<open>i\<close> counts from the end, and a bound left of the
  start gives the empty list.
\<close>

definition slice_to :: "'a list \<Rightarrow> int \<Rightarrow> 'a list" where
  "slice_to xs i = (if i < 0 then take (nat (int (length xs) + i)) xs else take (nat i) xs)"

text \<open>
  The body of the \<open>while\<close> loop of \<open>unique_slug\<close>: the candidate built from the
  original slug and the counter.
  \<^verbatim>\<open>
      slug = original_slug
      end = '-%s' % next
      if len(slug) + len(end) > 256:
          slug = slug[:200-len(end)]
      slug = '%s%s' % (slug, end)
  \<close>
\<close>

definition suffixed :: "string \<Rightarrow> nat \<Rightarrow> string" where
  "suffixed original_slug next =
     (let slug = original_slug;
          end' = CHR ''-'' # str_nat next;
          slug = (if length slug + length end' > 256
                  then slice_to slug (200 - int (length end')) else slug)
      in slug @ end')"

lemma digit_char_inj: "a < 10 \<Longrightarrow> b < 10 \<Longrightarrow> digit_char a = digit_char b \<Longrightarrow> a = b"
  unfolding digit_char_def by (simp add: char_of_quasi_inj)

lemma digit_char_not_dash: "d < 10 \<Longrightarrow> digit_char d \<noteq> CHR ''-''"
proof
  assume d: "d < 10" and "digit_char d = CHR ''-''"
  then have "of_char (digit_char d) = (of_char (CHR ''-'') :: nat)" by simp
  then show False using d by (simp add: digit_char_def)
qed

lemma str_nat_no_dash: "CHR ''-'' \<notin> set (str_nat n)"
proof (induction n rule: str_nat.induct)
  case (1 n)
  show ?case
  proof (cases "n < 10")
    case True
    then show ?thesis using digit_char_not_dash [of n] by (simp add: str_nat.simps [of n])
  next
    case False
    then show ?thesis using 1 digit_char_not_dash [of "n mod 10"]
      by (simp add: str_nat.simps [of n])
  qed
qed

lemma str_nat_not_Nil: "str_nat n \<noteq> []"
  by (simp add: str_nat.simps [of n])

lemma str_nat_inj: "str_nat m = str_nat n \<Longrightarrow> m = n"
proof (induction m arbitrary: n rule: str_nat.induct)
  case (1 m)
  show ?case
  proof (cases "m < 10")
    case True
    show ?thesis
    proof (cases "n < 10")
      case True
      with \<open>m < 10\<close> 1(2) show ?thesis
        by (simp add: str_nat.simps [of m] str_nat.simps [of n] digit_char_inj)
    next
      case False
      with \<open>m < 10\<close> 1(2) show ?thesis
        using str_nat_not_Nil [of "n div 10"]
        by (simp add: str_nat.simps [of m] str_nat.simps [of n])
    qed
  next
    case False
    show ?thesis
    proof (cases "n < 10")
      case True
      with False 1(2) show ?thesis
        using str_nat_not_Nil [of "m div 10"]
        by (simp add: str_nat.simps [of m] str_nat.simps [of n])
    next
      case nf: False
      from False nf 1(2) have e: "str_nat (m div 10) = str_nat (n div 10)"
        and d: "digit_char (m mod 10) = digit_char (n mod 10)"
        by (simp_all add: str_nat.simps [of m] str_nat.simps [of n])
      from 1(1) [OF False e] have "m div 10 = n div 10" .
      moreover from d have "m mod 10 = n mod 10" by (simp add: digit_char_inj)
      ultimately show ?thesis by (metis div_mult_mod_eq)
    qed
  qed
qed

lemma after_last_sep:
  assumes "a \<notin> set ys" "a \<notin> set ys'" "xs @ a # ys = xs' @ a # ys'"
  shows "ys = ys'"
proof -
  have "takeWhile (\<lambda>c. c \<noteq> a) (rev (xs @ a # ys)) = rev ys"
    using assms(1) by (auto simp: takeWhile_tail)
  moreover have "takeWhile (\<lambda>c. c \<noteq> a) (rev (xs' @ a # ys')) = rev ys'"
    using assms(2) by (auto simp: takeWhile_tail)
  ultimately show ?thesis using assms(3) by (metis rev_is_rev_conv)
qed

lemma suffixed_inj: "suffixed b m = suffixed b n \<Longrightarrow> m = n"
proof -
  assume h: "suffixed b m = suffixed b n"
  obtain p where p: "suffixed b m = p @ CHR ''-'' # str_nat m"
    by (simp add: suffixed_def Let_def)
  obtain q where q: "suffixed b n = q @ CHR ''-'' # str_nat n"
    by (simp add: suffixed_def Let_def)
  from h p q have "str_nat m = str_nat n"
    using after_last_sep [OF str_nat_no_dash str_nat_no_dash] by metis
  then show ?thesis by (rule str_nat_inj)
qed

lemma suffixed_not_Nil: "suffixed b n \<noteq> []"
  by (simp add: suffixed_def Let_def)

subsection \<open>The table behind the queryset\<close>

text \<open>
  The rows of the model's table, as far as slugs are concerned: primary key and slug.
  \<open>count_slug\<close> is \<open>queryset.filter(slug=s).count()\<close>.
\<close>

type_synonym table = "(nat \<times> string) list"

definition count_slug :: "table \<Rightarrow> string \<Rightarrow> nat" where
  "count_slug queryset s = length (filter (\<lambda>row. snd row = s) queryset)"

lemma count_slug_0: "count_slug q s = 0 \<longleftrightarrow> s \<notin> snd ` set q"
  by (auto simp: count_slug_def filter_empty_conv)

subsection \<open>The loop of \<open>unique_slug\<close>\<close>

text \<open>
  \<^verbatim>\<open>
      slug = ''
      next = 2
      while not slug or queryset.filter(slug=slug).count():
          ...body...
          next += 1
  \<close>
  The loop ends because two counters never give the same candidate (the digits after the
  last hyphen are the counter) and the table is finite: the number of counters from
  \<open>next\<close> on whose candidate is taken decreases.
\<close>

definition loop_measure :: "table \<times> string \<times> string \<times> nat \<Rightarrow> nat" where
  "loop_measure = (\<lambda>(queryset, original_slug, slug, next).
     2 * card {k. next \<le> k \<and> suffixed original_slug k \<in> snd ` set queryset}
     + (if slug = [] \<or> count_slug queryset slug \<noteq> 0 then 1 else 0))"

lemma finite_pending: "finite {k. n \<le> k \<and> suffixed b k \<in> snd ` set q}"
proof -
  have "inj (suffixed b)" by (rule injI) (rule suffixed_inj)
  then have "finite (suffixed b -` (snd ` set q))" by (intro finite_vimageI) simp_all
  moreover have "{k. n \<le> k \<and> suffixed b k \<in> snd ` set q} \<subseteq> suffixed b -` (snd ` set q)" by auto
  ultimately show ?thesis by (rule rev_finite_subset)
qed

lemma loop_measure_decreases:
  assumes "slug = [] \<or> 0 < count_slug q slug"
  shows "loop_measure (q, b, suffixed b n, Suc n) < loop_measure (q, b, slug, n)"
proof -
  let ?A = "\<lambda>n. {k. n \<le> k \<and> suffixed b k \<in> snd ` set q}"
  have sub: "?A (Suc n) \<subseteq> ?A n" by auto
  show ?thesis
  proof (cases "suffixed b n \<in> snd ` set q")
    case True
    then have "n \<in> ?A n" "n \<notin> ?A (Suc n)" by auto
    with sub have "?A (Suc n) \<subset> ?A n" by blast
    then have "card (?A (Suc n)) < card (?A n)"
      using finite_pending [of n b q] by (rule psubset_card_mono [rotated])
    with assms show ?thesis by (simp add: loop_measure_def)
  next
    case False
    then have c: "count_slug q (suffixed b n) = 0" by (simp add: count_slug_0)
    have "card (?A (Suc n)) \<le> card (?A n)"
      using finite_pending [of n b q] sub by (rule card_mono)
    with assms c show ?thesis by (simp add: loop_measure_def suffixed_not_Nil)
  qed
qed

function unique_slug_loop :: "table \<Rightarrow> string \<Rightarrow> string \<Rightarrow> nat \<Rightarrow> string" where
  "unique_slug_loop queryset original_slug slug next =
     (if slug = [] \<or> count_slug queryset slug \<noteq> 0
      then unique_slug_loop queryset original_slug (suffixed original_slug next) (next + 1)
      else slug)"
  by pat_completeness auto
termination
  by (relation "measure loop_measure") (simp_all add: loop_measure_decreases)

declare unique_slug_loop.simps [simp del]

subsection \<open>\<open>unique_slug\<close> and \<open>save\<close>\<close>

text \<open>
  An instance of a slugged model. \<open>pk\<close> is \<open>None\<close> until the row is inserted.
  \<open>get_slug_text\<close> is \<open>Some t\<close> when the instance has a callable \<open>get_slug_text\<close>
  returning \<open>t\<close>; \<open>has_unicode\<close> and \<open>has_str\<close> say whether \<open>__unicode__\<close> and
  \<open>__str__\<close> exist, and \<open>str_self\<close> is \<open>str(self)\<close>. The fields of the subclasses
  live in the record's extension.
\<close>

record entity =
  pk :: "nat option"
  slug :: string
  get_slug_text :: "string option"
  has_unicode :: bool
  has_str :: bool
  str_self :: string

text \<open>
  The text to slugify, or \<open>None\<close> on the branch that returns without one.
  \<^verbatim>\<open>
      if hasattr(self,'get_slug_text') and callable(self.get_slug_text):
          slug_txt = self.get_slug_text()
      elif hasattr(self,'__unicode__'):
          slug_txt = str(self)
      elif hasattr(self,'__str__'):
          slug_txt = str(self)
      else:
          return
  \<close>
\<close>

definition slug_txt :: "'a entity_scheme \<Rightarrow> string option" where
  "slug_txt self =
     (case get_slug_text self of
        Some t \<Rightarrow> Some t
      | None \<Rightarrow>
          if has_unicode self then Some (str_self self)
          else if has_str self then Some (str_self self)
          else None)"

text \<open>
  \<open>slugify\<close> is Django's template filter; it is a parameter of the model.
\<close>

definition unique_slug ::
  "(string \<Rightarrow> string) \<Rightarrow> table \<Rightarrow> 'a entity_scheme \<Rightarrow> 'a entity_scheme" where
  "unique_slug slugify queryset self =
     (if slug self \<noteq> [] then self
      else case slug_txt self of
        None \<Rightarrow> self
      | Some txt \<Rightarrow>
          let original_slug = slugify txt in
          if count_slug queryset original_slug = 0
          then self\<lparr>slug := original_slug\<rparr>
          else self\<lparr>slug := unique_slug_loop queryset original_slug [] 2\<rparr>)"

text \<open>
  \<open>models.Model.save\<close>, as far as the table of slugs sees it: an instance without a
  primary key is inserted under a fresh one, an instance with one updates its row (or is
  inserted under that key when the row is missing).
\<close>

definition fresh_pk :: "table \<Rightarrow> nat" where
  "fresh_pk queryset = Suc (fold max (map fst queryset) 0)"

definition model_save :: "table \<Rightarrow> 'a entity_scheme \<Rightarrow> 'a entity_scheme \<times> table" where
  "model_save queryset self =
     (case pk self of
        None \<Rightarrow> (let k = fresh_pk queryset in (self\<lparr>pk := Some k\<rparr>, queryset @ [(k, slug self)]))
      | Some k \<Rightarrow> (self, AList.update k (slug self) queryset))"

text \<open>
  \<^verbatim>\<open>
  def save(self, *args, **kwargs):
      self.unique_slug()
      if self.slug == '': raise ValueError("Slug may not be blank [%s]" % str(self))
      super(SluggedModel,self).save(*args, **kwargs)
  \<close>
\<close>

definition save ::
  "(string \<Rightarrow> string) \<Rightarrow> table \<Rightarrow> 'a entity_scheme \<Rightarrow> error + ('a entity_scheme \<times> table)" where
  "save slugify queryset self =
     (let self' = unique_slug slugify queryset self in
      if slug self' = [] then Inl ValueError
      else Inr (model_save queryset self'))"

text \<open>
  Saving a sequence of instances one after the other; an exception ends the run.
\<close>

fun save_all ::
  "(string \<Rightarrow> string) \<Rightarrow> table \<Rightarrow> 'a entity_scheme list \<Rightarrow> error + ('a entity_scheme list \<times> table)" where
  "save_all slugify queryset [] = Inr ([], queryset)"
| "save_all slugify queryset (e # es) =
     (case save slugify queryset e of
        Inl err \<Rightarrow> Inl err
      | Inr (e', queryset') \<Rightarrow>
          (case save_all slugify queryset' es of
             Inl err \<Rightarrow> Inl err
           | Inr (es', queryset'') \<Rightarrow> Inr (e' # es', queryset'')))"

text \<open>
  The slugs given to the instances of such a run, in order.
\<close>

definition saved_slugs ::
  "(string \<Rightarrow> string) \<Rightarrow> table \<Rightarrow> 'a entity_scheme list \<Rightarrow> error + string list" where
  "saved_slugs slugify queryset es =
     (case save_all slugify queryset es of
        Inl err \<Rightarrow> Inl err
      | Inr (es', queryset') \<Rightarrow> Inr (map slug es'))"

section \<open>resources.py: BoundaryResource\<close>

subsection \<open>Dictionaries and query strings\<close>

text \<open>
  \<open>bundle.data\<close> is a dictionary from field names to values; \<open>request.GET\<close> and the
  \<open>filters\<close> of \<open>build_filters\<close> are dictionaries from parameter names to strings.
  \<open>get_param\<close> is \<open>request.GET.get(key, default)\<close>, \<open>del_key\<close> is
  \<open>del d[key]\<close>, which raises \<open>KeyError\<close> on a missing key.
\<close>

type_synonym 'v bundle_data = "string \<rightharpoonup> 'v"

type_synonym params = "string \<rightharpoonup> string"

definition get_param :: "params \<Rightarrow> string \<Rightarrow> string \<Rightarrow> string" where
  "get_param GET key dflt = (case GET key of None \<Rightarrow> dflt | Some v \<Rightarrow> v)"

definition del_key :: "string \<Rightarrow> 'v bundle_data \<Rightarrow> error + 'v bundle_data" where
  "del_key key d = (case d key of None \<Rightarrow> Inl (KeyError key) | Some v \<Rightarrow> Inr (d(key := None)))"

text \<open>
  \<open>str.strip()\<close> removes leading and trailing whitespace; the whitespace characters
  below 256 are the codes 9 to 13, 28 to 32, 133 and 160. \<open>str.split(sep)\<close> with a
  separator always returns at least one piece: \<open>"".split(',')\<close> is \<open>['']\<close>.
\<close>

definition isspace :: "char \<Rightarrow> bool" where
  "isspace c = (of_char c \<in> {9, 10, 11, 12, 13, 28, 29, 30, 31, 32, 133, 160 :: nat})"

definition str_strip :: "string \<Rightarrow> string" where
  "str_strip s = rev (dropWhile isspace (rev (dropWhile isspace s)))"

fun str_split :: "char \<Rightarrow> string \<Rightarrow> string list" where
  "str_split sep [] = [[]]"
| "str_split sep (c # cs) =
     (if c = sep then [] # str_split sep cs
      else (case str_split sep cs of
              [] \<Rightarrow> [[c]]
            | w # ws \<Rightarrow> (c # w) # ws))"

subsection \<open>\<open>alter_detail_data_to_serialize\<close>\<close>

text \<open>
  \<^verbatim>\<open>
  shape_type = request.GET.get('shape_type', 'simple')
  if shape_type != 'simple':
      del bundle.data['simple_shape']
  if shape_type != 'full':
      del bundle.data['shape']
  return bundle
  \<close>
\<close>

definition alter_detail_data_to_serialize :: "params \<Rightarrow> 'v bundle_data \<Rightarrow> error + 'v bundle_data" where
  "alter_detail_data_to_serialize GET bundle =
     (let shape_type = get_param GET ''shape_type'' ''simple'' in
      case (if shape_type \<noteq> ''simple'' then del_key ''simple_shape'' bundle else Inr bundle) of
        Inl err \<Rightarrow> Inl err
      | Inr bundle1 \<Rightarrow>
          if shape_type \<noteq> ''full'' then del_key ''shape'' bundle1 else Inr bundle1)"

subsection \<open>\<open>alter_list_data_to_serialize\<close>\<close>

text \<open>
  The first loop, over \<open>data['objects']\<close>; the first failing \<open>del\<close> ends it.
  \<^verbatim>\<open>
  for obj in data['objects']:
      if shape_type != 'simple':
          del obj.data['simple_shape']
      if shape_type != 'full':
          del obj.data['shape']
  \<close>
\<close>

fun trim_objects :: "string \<Rightarrow> 'v bundle_data list \<Rightarrow> error + 'v bundle_data list" where
  "trim_objects shape_type [] = Inr []"
| "trim_objects shape_type (obj # objs) =
     (case (if shape_type \<noteq> ''simple'' then del_key ''simple_shape'' obj else Inr obj) of
        Inl err \<Rightarrow> Inl err
      | Inr obj1 \<Rightarrow>
          (case (if shape_type \<noteq> ''full'' then del_key ''shape'' obj1 else Inr obj1) of
             Inl err \<Rightarrow> Inl err
           | Inr obj2 \<Rightarrow>
               (case trim_objects shape_type objs of
                  Inl err \<Rightarrow> Inl err
                | Inr objs' \<Rightarrow> Inr (obj2 # objs'))))"

text \<open>
  The second loop: every exception of the \<open>del\<close> is swallowed.
  \<^verbatim>\<open>
  for exclude in excludes:
      for obj in data['objects']:
          try:
              del obj.data[exclude]
          except:
              pass
  \<close>
\<close>

definition try_del :: "string \<Rightarrow> 'v bundle_data \<Rightarrow> 'v bundle_data" where
  "try_del exclude d = (case del_key exclude d of Inl err \<Rightarrow> d | Inr d' \<Rightarrow> d')"

definition apply_excludes :: "string list \<Rightarrow> 'v bundle_data list \<Rightarrow> 'v bundle_data list" where
  "apply_excludes excludes objs = fold (\<lambda>exclude objs'. map (try_del exclude) objs') excludes objs"

text \<open>
  The response of a list request: the pagination data and the bundles.
\<close>

record ('m, 'v) list_data =
  meta :: 'm
  objects :: "'v bundle_data list"

definition alter_list_data_to_serialize ::
  "params \<Rightarrow> ('m, 'v) list_data \<Rightarrow> error + ('m, 'v) list_data" where
  "alter_list_data_to_serialize GET data =
     (let shape_type = get_param GET ''shape_type'' ''simple'' in
      case trim_objects shape_type (objects data) of
        Inl err \<Rightarrow> Inl err
      | Inr objs \<Rightarrow>
          let excludes = str_split CHR '','' (str_strip (get_param GET ''excludes'' [])) in
          Inr (data\<lparr>objects := (if excludes \<noteq> [] then apply_excludes excludes objs else objs)\<rparr>))"

text \<open>
  What the two \<open>del\<close> statements leave of one record when neither raises; used to
  state what both functions return.
\<close>

definition trimmed :: "string \<Rightarrow> 'v bundle_data \<Rightarrow> 'v bundle_data" where
  "trimmed shape_type d =
     (let d1 = (if shape_type \<noteq> ''simple'' then d(''simple_shape'' := None) else d)
      in if shape_type \<noteq> ''full'' then d1(''shape'' := None) else d1)"

subsection \<open>\<open>build_filters\<close>\<close>

text \<open>
  The values stored in \<open>orm_filters\<close>: the list of set slugs, the point of
  \<open>shape__contains\<close>, the pair of point and distance of \<open>shape__distance_lte\<close>, the
  geometry of \<open>shape__intersects\<close>, and whatever tastypie's own \<open>build_filters\<close> put there.
\<close>

datatype ('d, 'g, 'o) orm_value =
  Slugs "string list" | Point string | PointDistance string 'd | Geometry 'g | Inherited 'o

text \<open>
  \<open>re.match('([0-9]+)', s)\<close> is \<open>None\<close> unless \<open>s\<close> starts with a digit; otherwise
  group 1 is the longest prefix of digits, and \<open>int\<close> reads it in base ten.
\<close>

definition is_digit :: "char \<Rightarrow> bool" where
  "is_digit c = (c \<in> set ''0123456789'')"

definition re_match_digits :: "string \<Rightarrow> string option" where
  "re_match_digits s = (let group1 = takeWhile is_digit s in if group1 = [] then None else Some group1)"

definition int_of_digits :: "string \<Rightarrow> int" where
  "int_of_digits ds = foldl (\<lambda>acc c. 10 * acc + (int (of_char c) - 48)) 0 ds"

text \<open>
  One definition for each \<open>if ... in filters\<close> block of \<open>build_filters\<close>, in the order of
  the source. Unpacking a \<open>split\<close> into two or three names raises \<open>ValueError\<close> when the
  number of pieces is different; \<open>.group(1)\<close> on the \<open>None\<close> of a failed match raises
  \<open>AttributeError\<close>. The distance class \<open>D\<close> of Django and the lookup
  \<open>Boundary.objects.get(slug=slug).shape\<close> are parameters.
\<close>

definition add_sets ::
  "params \<Rightarrow> (string \<rightharpoonup> ('d, 'g, 'o) orm_value) \<Rightarrow> error + (string \<rightharpoonup> ('d, 'g, 'o) orm_value)" where
  "add_sets filters orm_filters =
     (case filters ''sets'' of
        None \<Rightarrow> Inr orm_filters
      | Some v \<Rightarrow> Inr (orm_filters(''set__slug__in'' \<mapsto> Slugs (str_split CHR '','' v))))"

definition add_contains ::
  "params \<Rightarrow> (string \<rightharpoonup> ('d, 'g, 'o) orm_value) \<Rightarrow> error + (string \<rightharpoonup> ('d, 'g, 'o) orm_value)" where
  "add_contains filters orm_filters =
     (case filters ''contains'' of
        None \<Rightarrow> Inr orm_filters
      | Some v \<Rightarrow>
          (case str_split CHR '','' v of
             [lat, lon] \<Rightarrow>
               let wkt_pt = ''POINT('' @ lon @ '' '' @ lat @ '')'' in
               Inr (orm_filters(''shape__contains'' \<mapsto> Point wkt_pt))
           | _ \<Rightarrow> Inl ValueError))"

definition add_near ::
  "(string \<Rightarrow> int \<Rightarrow> error + 'd) \<Rightarrow> params \<Rightarrow> (string \<rightharpoonup> ('d, 'g, 'o) orm_value)
     \<Rightarrow> error + (string \<rightharpoonup> ('d, 'g, 'o) orm_value)" where
  "add_near D filters orm_filters =
     (case filters ''near'' of
        None \<Rightarrow> Inr orm_filters
      | Some v \<Rightarrow>
          (case str_split CHR '','' v of
             [lat, lon, range'] \<Rightarrow>
               let wkt_pt = ''POINT('' @ lon @ '' '' @ lat @ '')'' in
               (case re_match_digits range' of
                  None \<Rightarrow> Inl AttributeError
                | Some numeral' \<Rightarrow>
                    let unit = drop (length numeral') range';
                        numeral' = int_of_digits numeral' in
                    (case D unit numeral' of
                       Inl err \<Rightarrow> Inl err
                     | Inr distance \<Rightarrow>
                         Inr (orm_filters(''shape__distance_lte'' \<mapsto> PointDistance wkt_pt distance))))
           | _ \<Rightarrow> Inl ValueError))"

definition add_intersects ::
  "(string \<Rightarrow> error + 'g) \<Rightarrow> params \<Rightarrow> (string \<rightharpoonup> ('d, 'g, 'o) orm_value)
     \<Rightarrow> error + (string \<rightharpoonup> ('d, 'g, 'o) orm_value)" where
  "add_intersects get_shape filters orm_filters =
     (case filters ''intersects'' of
        None \<Rightarrow> Inr orm_filters
      | Some slug' \<Rightarrow>
          (case get_shape slug' of
             Inl err \<Rightarrow> Inl err
           | Inr shape \<Rightarrow> Inr (orm_filters(''shape__intersects'' \<mapsto> Geometry shape))))"

definition and_then :: "error + 'a \<Rightarrow> ('a \<Rightarrow> error + 'b) \<Rightarrow> error + 'b" where
  "and_then r f = (case r of Inl err \<Rightarrow> Inl err | Inr x \<Rightarrow> f x)"

text \<open>
  \<open>super_build_filters\<close> is tastypie's \<open>build_filters\<close>, called first; \<open>filters=None\<close>
  stands for the empty dictionary.
\<close>

definition build_filters ::
  "(params \<Rightarrow> error + (string \<rightharpoonup> ('d, 'g, 'o) orm_value)) \<Rightarrow> (string \<Rightarrow> int \<Rightarrow> error + 'd)
     \<Rightarrow> (string \<Rightarrow> error + 'g) \<Rightarrow> params option
     \<Rightarrow> error + (string \<rightharpoonup> ('d, 'g, 'o) orm_value)" where
  "build_filters super_build_filters D get_shape filters_arg =
     (let filters = (case filters_arg of None \<Rightarrow> Map.empty | Some f \<Rightarrow> f) in
      and_then (super_build_filters filters) (\<lambda>orm_filters.
      and_then (add_sets filters orm_filters) (\<lambda>orm_filters.
      and_then (add_contains filters orm_filters) (\<lambda>orm_filters.
      and_then (add_near D filters orm_filters) (\<lambda>orm_filters.
      add_intersects get_shape filters orm_filters)))))"

text \<open>
  A plain environment for running \<open>build_filters\<close> on examples: tastypie adds no filter,
  \<open>D\<close> keeps its keyword argument as a pair, and no boundary is stored.
\<close>

definition no_inherited_filters ::
  "params \<Rightarrow> error + (string \<rightharpoonup> (string \<times> int, unit, unit) orm_value)" where
  "no_inherited_filters filters = Inr Map.empty"

definition D_kwargs :: "string \<Rightarrow> int \<Rightarrow> error + string \<times> int" where
  "D_kwargs unit numeral' = Inr (unit, numeral')"

definition no_boundary :: "string \<Rightarrow> error + unit" where
  "no_boundary slug' = Inl DoesNotExist"

section \<open>Properties of the slug resolver\<close>

lemma unique_slug_keeps: "slug self \<noteq> [] \<Longrightarrow> unique_slug slugify queryset self = self"
  by (simp add: unique_slug_def)

lemma model_save_slug: "model_save queryset self = (self', queryset') \<Longrightarrow> slug self' = slug self"
  by (auto simp: model_save_def Let_def split: option.splits)

lemma model_save_more:
  "model_save queryset self = (self', queryset') \<Longrightarrow> self' = self\<lparr>pk := pk self'\<rparr>"
  by (auto simp: model_save_def Let_def split: option.splits)

lemma set_update_slugs:
  "snd ` set (AList.update k v q) \<subseteq> insert v (snd ` set q)"
  by (induction q) auto

lemma update_has_slug: "v \<in> snd ` set (AList.update k v q)"
  by (induction q) auto

lemma model_save_slugs:
  "model_save queryset self = (self', queryset') \<Longrightarrow>
     snd ` set queryset' \<subseteq> insert (slug self) (snd ` set queryset)"
  using set_update_slugs [of _ "slug self" queryset]
  by (auto simp: model_save_def Let_def split: option.splits)

subsection \<open>What the loop returns\<close>

lemma loop_first_free:
  assumes "sl = [] \<or> sl \<in> snd ` set q"
    and "j \<le> n"
    and "\<forall>k. j \<le> k \<and> k < n \<longrightarrow> suffixed b k \<in> snd ` set q"
    and "suffixed b n \<notin> snd ` set q"
  shows "unique_slug_loop q b sl j = suffixed b n"
  using assms
proof (induction "n - j" arbitrary: j sl)
  case 0
  then have "j = n" by simp
  with 0 show ?case
    by (simp add: unique_slug_loop.simps [of q b sl] unique_slug_loop.simps [of q b "suffixed b n"]
        count_slug_0 suffixed_not_Nil)
next
  case (Suc d)
  then have lt: "j < n" by simp
  with Suc.prems have taken: "suffixed b j \<in> snd ` set q" by simp
  have "unique_slug_loop q b (suffixed b j) (Suc j) = suffixed b n"
    using Suc.hyps(2) lt taken Suc.prems(3,4) by (intro Suc.hyps(1)) auto
  with Suc.prems(1) show ?case
    by (simp add: unique_slug_loop.simps [of q b sl] count_slug_0)
qed

lemma loop_result:
  assumes "sl = [] \<or> sl \<in> snd ` set q"
  shows "\<exists>n\<ge>j. unique_slug_loop q b sl j = suffixed b n
            \<and> suffixed b n \<notin> snd ` set q
            \<and> (\<forall>k. j \<le> k \<and> k < n \<longrightarrow> suffixed b k \<in> snd ` set q)"
  using assms
proof (induction q b sl j rule: unique_slug_loop.induct)
  case (1 q b sl j)
  show ?case
  proof (cases "suffixed b j \<in> snd ` set q")
    case False
    with 1(2) have "unique_slug_loop q b sl j = suffixed b j"
      by (simp add: unique_slug_loop.simps [of q b sl] unique_slug_loop.simps [of q b "suffixed b j"]
        count_slug_0 suffixed_not_Nil)
    with False show ?thesis by auto
  next
    case True
    from 1(2) have c: "sl = [] \<or> count_slug q sl \<noteq> 0" by (simp add: count_slug_0)
    from 1(1) [OF c] True obtain n where n: "Suc j \<le> n"
      "unique_slug_loop q b (suffixed b j) (j + 1) = suffixed b n"
      "suffixed b n \<notin> snd ` set q"
      "\<forall>k. Suc j \<le> k \<and> k < n \<longrightarrow> suffixed b k \<in> snd ` set q"
      by auto
    have "unique_slug_loop q b sl j = suffixed b n"
      using c n(2) by (simp add: unique_slug_loop.simps [of q b sl])
    moreover have "\<forall>k. j \<le> k \<and> k < n \<longrightarrow> suffixed b k \<in> snd ` set q"
      using n(4) True by (metis Suc_leI le_neq_implies_less)
    ultimately show ?thesis using n(1,3) by (intro exI [of _ n]) simp
  qed
qed

lemma taken_bound:
  assumes "\<forall>k. j \<le> k \<and> k < n \<longrightarrow> suffixed b k \<in> snd ` set q" "j \<le> n"
  shows "n \<le> j + length q"
proof -
  have "suffixed b ` {j..<n} \<subseteq> snd ` set q" using assms(1) by auto
  then have "card (suffixed b ` {j..<n}) \<le> card (snd ` set q)"
    by (intro card_mono) simp_all
  moreover have "card (suffixed b ` {j..<n}) = card {j..<n}"
    by (intro card_image inj_onI) (rule suffixed_inj)
  moreover have "card (snd ` set q) \<le> length q"
    by (metis card_image_le card_length le_trans List.finite_set)
  ultimately show ?thesis by simp
qed

lemma length_str_nat_bound: "0 < d \<Longrightarrow> n < 10 ^ d \<Longrightarrow> length (str_nat n) \<le> d"
proof (induction d arbitrary: n)
  case 0
  then show ?case by simp
next
  case (Suc d)
  show ?case
  proof (cases "n < 10")
    case True
    then show ?thesis by (simp add: str_nat.simps [of n])
  next
    case False
    with Suc.prems have "0 < d" by (cases d) auto
    moreover from Suc.prems have "n div 10 < 10 ^ d" by (simp add: less_mult_imp_div_less mult.commute)
    ultimately have "length (str_nat (n div 10)) \<le> d" by (rule Suc.IH)
    with False show ?thesis by (simp add: str_nat.simps [of n])
  qed
qed

lemma length_str_nat_mono: "m \<le> n \<Longrightarrow> length (str_nat m) \<le> length (str_nat n)"
proof (induction n arbitrary: m rule: str_nat.induct)
  case (1 n)
  show ?case
  proof (cases "n < 10")
    case True
    with 1(2) show ?thesis by (simp add: str_nat.simps [of n] str_nat.simps [of m])
  next
    case False
    show ?thesis
    proof (cases "m < 10")
      case True
      with False show ?thesis by (simp add: str_nat.simps [of n] str_nat.simps [of m])
    next
      case mf: False
      from 1(2) have "m div 10 \<le> n div 10" by (rule div_le_mono)
      from 1(1) [OF False this] False mf show ?thesis
        by (simp add: str_nat.simps [of n] str_nat.simps [of m])
    qed
  qed
qed

lemma suffixed_short:
  "length b + length (CHR ''-'' # str_nat n) \<le> 256 \<Longrightarrow> suffixed b n = b @ CHR ''-'' # str_nat n"
  by (simp add: suffixed_def Let_def)

lemma suffixed_long:
  assumes "256 < length b + length (CHR ''-'' # str_nat n)" "length (CHR ''-'' # str_nat n) \<le> 200"
  shows "suffixed b n = take (200 - length (CHR ''-'' # str_nat n)) b @ CHR ''-'' # str_nat n"
    and "length (suffixed b n) = 200"
  using assms by (simp_all add: suffixed_def Let_def slice_to_def nat_diff_distrib')

subsection \<open>Single saves\<close>

lemma save_nonblank:
  assumes "[] \<notin> snd ` set q" "save slugify q e = Inr (e', q')"
  shows "[] \<notin> snd ` set q'"
proof -
  let ?u = "unique_slug slugify q e"
  from assms(2) have nb: "slug ?u \<noteq> []" and m: "model_save q ?u = (e', q')"
    by (auto simp: save_def Let_def split: if_splits)
  from model_save_slugs [OF m] assms(1) nb show ?thesis by auto
qed

lemma save_all_nonblank:
  "[] \<notin> snd ` set q \<Longrightarrow> save_all slugify q es = Inr (es', q') \<Longrightarrow> [] \<notin> snd ` set q'"
proof (induction es arbitrary: q es')
  case Nil
  then show ?case by simp
next
  case (Cons e es)
  from Cons.prems(2) obtain e1 q1 es1 where
    s: "save slugify q e = Inr (e1, q1)" and r: "save_all slugify q1 es = Inr (es1, q')"
    by (auto split: sum.splits prod.splits)
  from save_nonblank [OF Cons.prems(1) s] r show ?case by (rule Cons.IH)
qed

lemma save_blank_fails:
  assumes "[] \<notin> snd ` set q" "slug self = []"
    and "slug_txt self = None \<or> (\<exists>t. slug_txt self = Some t \<and> slugify t = [])"
  shows "save slugify q self = Inl ValueError"
  using assms by (auto simp: save_def unique_slug_def Let_def count_slug_0)

lemma save_fresh:
  assumes "slug e = []" "pk e = None" "slug_txt e = Some txt" "slugify txt \<notin> snd ` set q"
    "slugify txt \<noteq> []"
  shows "\<exists>e'. save slugify q e = Inr (e', q @ [(fresh_pk q, slugify txt)]) \<and> slug e' = slugify txt"
  using assms by (simp add: save_def unique_slug_def Let_def count_slug_0 model_save_def)

lemma save_taken:
  assumes "slug e = []" "pk e = None" "slug_txt e = Some txt" "slugify txt \<in> snd ` set q"
    and "2 \<le> n" "\<forall>k. 2 \<le> k \<and> k < n \<longrightarrow> suffixed (slugify txt) k \<in> snd ` set q"
    and "suffixed (slugify txt) n \<notin> snd ` set q"
  shows "\<exists>e'. save slugify q e = Inr (e', q @ [(fresh_pk q, suffixed (slugify txt) n)])
            \<and> slug e' = suffixed (slugify txt) n"
proof -
  have "unique_slug_loop q (slugify txt) [] 2 = suffixed (slugify txt) n"
    using assms(5,6,7) by (intro loop_first_free) simp_all
  with assms(1-4) show ?thesis
    by (simp add: save_def unique_slug_def Let_def count_slug_0 model_save_def suffixed_not_Nil)
qed

lemma dashed_inj: "b @ CHR ''-'' # str_nat m = b @ CHR ''-'' # str_nat n \<Longrightarrow> m = n"
  by (simp add: str_nat_inj)

lemma save_new:
  assumes "slug e = []" "pk e = None" "slug_txt e = Some txt" "slugify txt \<noteq> []"
  shows "\<exists>e' s. save slugify q e = Inr (e', q @ [(fresh_pk q, s)]) \<and> slug e' = s
              \<and> s \<notin> snd ` set q"
proof (cases "slugify txt \<in> snd ` set q")
  case False
  from save_fresh [of e "txt" slugify q, OF assms(1-3) False assms(4)] False show ?thesis by blast
next
  case True
  from loop_result [of "[]" q 2 "slugify txt"] obtain n where n: "2 \<le> n"
    "suffixed (slugify txt) n \<notin> snd ` set q"
    "\<forall>k. 2 \<le> k \<and> k < n \<longrightarrow> suffixed (slugify txt) k \<in> snd ` set q"
    by auto
  from save_taken [of e "txt" slugify q n, OF assms(1-3) True n(1) n(3) n(2)] n(2) show ?thesis by blast
qed

lemma save_all_distinct:
  assumes "\<forall>e\<in>set es. slug e = [] \<and> pk e = None \<and> slug_txt e = Some txt"
    and "slugify txt \<noteq> []"
  shows "\<exists>es' q'. save_all slugify q es = Inr (es', q') \<and> length es' = length es
            \<and> distinct (map slug es') \<and> set (map slug es') \<inter> snd ` set q = {}"
  using assms(1)
proof (induction es arbitrary: q)
  case Nil
  then show ?case by simp
next
  case (Cons e es)
  have e: "slug e = []" "pk e = None" "slug_txt e = Some txt" using Cons.prems by simp_all
  from save_new [of e "txt" slugify q, OF e assms(2)] obtain e' s where
    s: "save slugify q e = Inr (e', q @ [(fresh_pk q, s)])" "slug e' = s" "s \<notin> snd ` set q"
    by blast
  let ?q = "q @ [(fresh_pk q, s)]"
  have "\<forall>e\<in>set es. slug e = [] \<and> pk e = None \<and> slug_txt e = Some txt"
    using Cons.prems by simp
  from Cons.IH [OF this, of ?q] obtain es' q' where
    r: "save_all slugify ?q es = Inr (es', q')" "length es' = length es"
      "distinct (map slug es')" "set (map slug es') \<inter> snd ` set ?q = {}"
    by blast
  from r(4) have n1: "s \<notin> set (map slug es')" by auto
  from r(4) have n2: "set (map slug es') \<inter> snd ` set q = {}" by auto
  have sv: "save_all slugify q (e # es) = Inr (e' # es', q')"
    using s(1) r(1) by simp
  have "distinct (map slug (e' # es'))" using n1 r(3) s(2) by simp
  moreover have "set (map slug (e' # es')) \<inter> snd ` set q = {}"
    using n2 s(2,3) by simp
  moreover have "length (e' # es') = length (e # es)" using r(2) by simp
  ultimately show ?case using sv by blast
qed

lemma run_from:
  assumes "\<forall>e\<in>set es. slug e = [] \<and> pk e = None \<and> slug_txt e = Some txt"
    and "slugify txt = b" "b \<in> snd ` set q" "2 \<le> n"
    and "\<forall>k. 2 \<le> k \<and> k < n \<longrightarrow> b @ CHR ''-'' # str_nat k \<in> snd ` set q"
    and "\<forall>k. n \<le> k \<and> k < n + length es \<longrightarrow> b @ CHR ''-'' # str_nat k \<notin> snd ` set q"
    and "es \<noteq> [] \<longrightarrow> length b + length (CHR ''-'' # str_nat (n + length es - 1)) \<le> 256"
  shows "\<exists>es' q'. save_all slugify q es = Inr (es', q')
            \<and> map slug es' = map (\<lambda>k. b @ CHR ''-'' # str_nat k) [n..<n + length es]"
  using assms
proof (induction es arbitrary: q n)
  case Nil
  then show ?case by simp
next
  case (Cons e es)
  have short: "suffixed b k = b @ CHR ''-'' # str_nat k" if "k \<le> n + length es" for k
  proof -
    from that have "length (str_nat k) \<le> length (str_nat (n + length (e # es) - 1))"
      by (intro length_str_nat_mono) simp
    with Cons.prems(7) show ?thesis by (intro suffixed_short) simp
  qed
  have e: "slug e = []" "pk e = None" "slug_txt e = Some txt" using Cons.prems(1) by simp_all
  have t: "\<forall>k. 2 \<le> k \<and> k < n \<longrightarrow> suffixed (slugify txt) k \<in> snd ` set q"
    using Cons.prems(2,5) short by simp
  have f: "suffixed (slugify txt) n \<notin> snd ` set q"
    using Cons.prems(2,6) short [of n] by simp
  from save_taken [OF e, of slugify q n] Cons.prems(2,3,4) t f
  obtain e' where s: "save slugify q e = Inr (e', q @ [(fresh_pk q, b @ CHR ''-'' # str_nat n)])"
    and se: "slug e' = b @ CHR ''-'' # str_nat n"
    using short [of n] by auto
  let ?q = "q @ [(fresh_pk q, b @ CHR ''-'' # str_nat n)]"
  have "\<exists>es' q'. save_all slugify ?q es = Inr (es', q')
            \<and> map slug es' = map (\<lambda>k. b @ CHR ''-'' # str_nat k) [Suc n..<Suc n + length es]"
  proof (rule Cons.IH)
    show "\<forall>e\<in>set es. slug e = [] \<and> pk e = None \<and> slug_txt e = Some txt"
      using Cons.prems(1) by simp
    show "slugify txt = b" by (rule Cons.prems(2))
    show "b \<in> snd ` set ?q" using Cons.prems(3) by simp
    show "2 \<le> Suc n" using Cons.prems(4) by simp
    show "\<forall>k. 2 \<le> k \<and> k < Suc n \<longrightarrow> b @ CHR ''-'' # str_nat k \<in> snd ` set ?q"
      using Cons.prems(5) by (auto simp: less_Suc_eq)
    show "\<forall>k. Suc n \<le> k \<and> k < Suc n + length es \<longrightarrow> b @ CHR ''-'' # str_nat k \<notin> snd ` set ?q"
      using Cons.prems(6) by (auto dest: str_nat_inj)
    show "es \<noteq> [] \<longrightarrow> length b + length (CHR ''-'' # str_nat (Suc n + length es - 1)) \<le> 256"
      using Cons.prems(7) by simp
  qed
  then obtain es' q' where r: "save_all slugify ?q es = Inr (es', q')"
    and m: "map slug es' = map (\<lambda>k. b @ CHR ''-'' # str_nat k) [Suc n..<Suc n + length es]"
    by blast
  have "[n..<n + length (e # es)] = n # [Suc n..<Suc n + length es]"
    using upt_rec [of n "n + length (e # es)"] by simp
  with s r m se show ?case by simp
qed

subsection \<open>The pattern base, base-2, base-3\<close>

lemma str_nat_2: "str_nat 2 = ''2''"
  by code_simp

lemma str_nat_3: "str_nat 3 = ''3''"
  by code_simp

subsection \<open>The claims about slugs\<close>

text \<open>
  C7. An instance whose slug is already set is saved with that slug: \<open>unique_slug\<close>
  returns at once, the save succeeds, the stored row carries the same slug, and no other
  field of the instance changes (the insert only fills in the primary key).
\<close>

theorem save_keeps_existing_slug:
  assumes "slug self \<noteq> []"
  shows "unique_slug slugify queryset self = self
       \<and> (\<exists>self' queryset'. save slugify queryset self = Inr (self', queryset')
             \<and> slug self' = slug self
             \<and> self' = self\<lparr>pk := pk self'\<rparr>
             \<and> slug self \<in> snd ` set queryset')"
proof -
  obtain self' queryset' where m: "model_save queryset self = (self', queryset')"
    by (cases "model_save queryset self")
  have s: "save slugify queryset self = Inr (self', queryset')"
    using assms m by (simp add: save_def unique_slug_keeps)
  have "slug self \<in> snd ` set queryset'"
    using m update_has_slug [of "slug self" _ queryset]
    by (auto simp: model_save_def Let_def split: option.splits)
  with s m assms show ?thesis
    using model_save_slug [OF m] model_save_more [OF m]
    by (simp add: unique_slug_keeps)
qed

theorem save_keeps_existing_slug_witness:
  "slug \<lparr>pk = Some 0, slug = ''ward-5'', get_slug_text = None, has_unicode = True,
          has_str = True, str_self = ''Ward 6''\<rparr> \<noteq> []
   \<and> (\<exists>self' queryset'.
        save (\<lambda>t. ''ward-6'') [(0, ''ward-5'')]
          \<lparr>pk = Some 0, slug = ''ward-5'', get_slug_text = None, has_unicode = True,
           has_str = True, str_self = ''Ward 6''\<rparr> = Inr (self', queryset')
        \<and> slug self' = ''ward-5'')"
  using save_keeps_existing_slug [of
      "\<lparr>pk = Some 0, slug = ''ward-5'', get_slug_text = None, has_unicode = True,
        has_str = True, str_self = ''Ward 6''\<rparr>" "\<lambda>t. ''ward-6''" "[(0, ''ward-5'')]"]
  by auto

text \<open>
  C9. After any run of saves that started from the empty table, no row has an empty slug,
  and saving an instance whose slug is empty and whose text is missing or is slugified to
  the empty string raises the \<open>ValueError\<close> of \<open>save\<close> ("Slug may not be
  blank"): nothing is stored.
\<close>

theorem blank_slug_rejected:
  assumes "save_all slugify [] es = Inr (es', q)"
  shows "[] \<notin> snd ` set q
       \<and> (slug self = []
            \<and> (slug_txt self = None \<or> (\<exists>t. slug_txt self = Some t \<and> slugify t = []))
          \<longrightarrow> save slugify q self = Inl ValueError)"
proof -
  have nb: "[] \<notin> snd ` set q" using save_all_nonblank [OF _ assms] by simp
  then show ?thesis using save_blank_fails [of q self slugify] by blast
qed

theorem blank_slug_rejected_witness:
  "save_all (\<lambda>t. if t = ''Ward 5'' then ''ward-5'' else [])
      [] [\<lparr>pk = None, slug = [], get_slug_text = None, has_unicode = True, has_str = True,
           str_self = ''Ward 5''\<rparr>]
     = Inr ([\<lparr>pk = Some 1, slug = ''ward-5'', get_slug_text = None, has_unicode = True,
              has_str = True, str_self = ''Ward 5''\<rparr>], [(1, ''ward-5'')])
   \<and> [] \<notin> snd ` set [(1 :: nat, ''ward-5'')]
   \<and> save (\<lambda>t. if t = ''Ward 5'' then ''ward-5'' else []) [(1, ''ward-5'')]
        \<lparr>pk = None, slug = [], get_slug_text = Some ''!!!'', has_unicode = True, has_str = True,
         str_self = ''Ward 5''\<rparr> = Inl ValueError"
proof -
  have h: "save_all (\<lambda>t. if t = ''Ward 5'' then ''ward-5'' else [])
      [] [\<lparr>pk = None, slug = [], get_slug_text = None, has_unicode = True, has_str = True,
           str_self = ''Ward 5''\<rparr>]
     = Inr ([\<lparr>pk = Some 1, slug = ''ward-5'', get_slug_text = None, has_unicode = True,
              has_str = True, str_self = ''Ward 5''\<rparr>], [(1, ''ward-5'')])"
    by (simp add: save_def unique_slug_def slug_txt_def count_slug_def model_save_def
        fresh_pk_def Let_def)
  show ?thesis
    using h blank_slug_rejected [OF h, of
        "\<lparr>pk = None, slug = [], get_slug_text = Some ''!!!'', has_unicode = True, has_str = True,
          str_self = ''Ward 5''\<rparr>"]
    by (simp add: slug_txt_def)
qed

text \<open>
  C6. When the slugified text is already taken, the slug given is a candidate of the loop
  that no row has, it is at most 256 characters long, and where base and suffix together
  exceed 256 characters it is the first \<open>max 0 (200 - len(suffix))\<close> characters of the
  base followed by the suffix. The table is taken to have fewer than \<open>10 ^ 199 - 2\<close>
  rows, so that every suffix tried has at most 200 characters and the bound of the slice
  \<open>slug[:200-len(end)]\<close> is not negative.
\<close>

theorem long_base_truncated:
  assumes "slug self = []" "slug_txt self = Some txt" "slugify txt = base"
    and "base \<in> snd ` set q" "length q + 2 < 10 ^ 199"
  shows "\<exists>n\<ge>2. slug (unique_slug slugify q self) = suffixed base n
          \<and> suffixed base n \<notin> snd ` set q
          \<and> length (suffixed base n) \<le> 256
          \<and> (256 < length base + length (CHR ''-'' # str_nat n) \<longrightarrow>
               suffixed base n
                 = take (nat (max 0 (200 - int (length (CHR ''-'' # str_nat n))))) base
                   @ CHR ''-'' # str_nat n)"
proof -
  from loop_result [of "[]" q 2 base] obtain n where n: "2 \<le> n"
    "unique_slug_loop q base [] 2 = suffixed base n" "suffixed base n \<notin> snd ` set q"
    "\<forall>k. 2 \<le> k \<and> k < n \<longrightarrow> suffixed base k \<in> snd ` set q"
    by auto
  have u: "slug (unique_slug slugify q self) = suffixed base n"
    using assms(1-4) n(2) by (simp add: unique_slug_def Let_def count_slug_0)
  from taken_bound [OF n(4) n(1)] assms(5) have "n < 10 ^ 199" by simp
  then have "length (str_nat n) \<le> 199" by (intro length_str_nat_bound) simp_all
  then have le: "length (CHR ''-'' # str_nat n) \<le> 200" by simp
  have len: "length (suffixed base n) \<le> 256"
  proof (cases "256 < length base + length (CHR ''-'' # str_nat n)")
    case True
    from suffixed_long(2) [OF True le] show ?thesis by simp
  next
    case False
    then show ?thesis by (simp add: suffixed_short)
  qed
  have tr: "256 < length base + length (CHR ''-'' # str_nat n) \<longrightarrow>
               suffixed base n
                 = take (nat (max 0 (200 - int (length (CHR ''-'' # str_nat n))))) base
                   @ CHR ''-'' # str_nat n"
  proof
    assume t: "256 < length base + length (CHR ''-'' # str_nat n)"
    have "nat (max 0 (200 - int (length (CHR ''-'' # str_nat n)))) = 200 - length (CHR ''-'' # str_nat n)"
      using le by simp
    with suffixed_long(1) [OF t le] show "suffixed base n
                 = take (nat (max 0 (200 - int (length (CHR ''-'' # str_nat n))))) base
                   @ CHR ''-'' # str_nat n" by simp
  qed
  from n(1) u n(3) len tr show ?thesis by blast
qed

theorem long_base_truncated_witness:
  "slug \<lparr>pk = None, slug = [], get_slug_text = Some (replicate 255 CHR ''a''),
          has_unicode = False, has_str = True, str_self = []\<rparr> = []
   \<and> replicate 255 CHR ''a'' \<in> snd ` set [(1 :: nat, replicate 255 CHR ''a'')]
   \<and> (\<exists>n\<ge>2. slug (unique_slug (\<lambda>t. t) [(1, replicate 255 CHR ''a'')]
             \<lparr>pk = None, slug = [], get_slug_text = Some (replicate 255 CHR ''a''),
              has_unicode = False, has_str = True, str_self = []\<rparr>)
           = suffixed (replicate 255 CHR ''a'') n
          \<and> length (suffixed (replicate 255 CHR ''a'') n) \<le> 256)"
  using long_base_truncated [of
      "\<lparr>pk = None, slug = [], get_slug_text = Some (replicate 255 CHR ''a''),
        has_unicode = False, has_str = True, str_self = []\<rparr>"
      "replicate 255 CHR ''a''" "\<lambda>t. t" "replicate 255 CHR ''a''"
      "[(1, replicate 255 CHR ''a'')]"]
  by (auto simp: slug_txt_def)

text \<open>
  C1. A run of \<open>N\<close> new instances (empty slug, no primary key) with the same text,
  whose slugified text \<open>base\<close> is not empty, is saved with \<open>N\<close> pairwise distinct
  slugs, none of which the table held before: this holds for every table and every length
  of \<open>base\<close>. When \<open>base-N\<close> has at most 256 characters, the slugs are
  \<open>base, base-2, ..., base-N\<close> exactly when the table held none of these \<open>N\<close>
  slugs before. Each candidate is built from \<open>base\<close> afresh, so suffixes never pile up.
\<close>

theorem same_text_slugs:
  assumes "\<forall>e\<in>set es. slug e = [] \<and> pk e = None \<and> slug_txt e = Some txt"
    and "slugify txt = base" "base \<noteq> []"
  shows "(\<exists>es' q'. save_all slugify q es = Inr (es', q') \<and> length es' = length es
            \<and> distinct (map slug es') \<and> set (map slug es') \<inter> snd ` set q = {})
       \<and> (length base + length (CHR ''-'' # str_nat (length es)) \<le> 256 \<longrightarrow>
            (saved_slugs slugify q es
               = Inr (map (\<lambda>k. if k = 1 then base else base @ CHR ''-'' # str_nat k)
                        [1..<Suc (length es)])
             \<longleftrightarrow> set (map (\<lambda>k. if k = 1 then base else base @ CHR ''-'' # str_nat k)
                        [1..<Suc (length es)]) \<inter> snd ` set q = {}))"
proof (intro conjI impI)
  let ?P = "\<lambda>k::nat. if k = 1 then base else base @ CHR ''-'' # str_nat k"
  have nb: "slugify txt \<noteq> []" using assms(2,3) by simp
  from save_all_distinct [of es "txt" slugify q, OF assms(1) nb] obtain es' q' where
    d: "save_all slugify q es = Inr (es', q')" "length es' = length es"
      "distinct (map slug es')" "set (map slug es') \<inter> snd ` set q = {}"
    by blast
  then show "\<exists>es' q'. save_all slugify q es = Inr (es', q') \<and> length es' = length es
            \<and> distinct (map slug es') \<and> set (map slug es') \<inter> snd ` set q = {}"
    by blast
  assume len: "length base + length (CHR ''-'' # str_nat (length es)) \<le> 256"
  show "saved_slugs slugify q es = Inr (map ?P [1..<Suc (length es)])
      \<longleftrightarrow> set (map ?P [1..<Suc (length es)]) \<inter> snd ` set q = {}"
  proof
    assume "saved_slugs slugify q es = Inr (map ?P [1..<Suc (length es)])"
    with d(1) have "map slug es' = map ?P [1..<Suc (length es)]"
      by (simp add: saved_slugs_def)
    with d(4) show "set (map ?P [1..<Suc (length es)]) \<inter> snd ` set q = {}"
      by (simp only:)
  next
    assume free: "set (map ?P [1..<Suc (length es)]) \<inter> snd ` set q = {}"
    show "saved_slugs slugify q es = Inr (map ?P [1..<Suc (length es)])"
    proof (cases es)
      case Nil
      then show ?thesis by (simp add: saved_slugs_def)
    next
      case (Cons e es1)
      have e: "slug e = []" "pk e = None" "slug_txt e = Some txt" using assms(1) Cons by simp_all
      have mem: "?P k \<in> set (map ?P [1..<Suc (length es)])" if "1 \<le> k" "k \<le> length es" for k
      proof -
        have "k \<in> set [1..<Suc (length es)]" using that by auto
        then have "?P k \<in> ?P ` set [1..<Suc (length es)]" by (rule imageI)
        then show ?thesis by (simp only: set_map)
      qed
      have "?P 1 \<in> set (map ?P [1..<Suc (length es)])"
        using Cons by (intro mem) simp_all
      with free have "?P 1 \<notin> snd ` set q" by blast
      then have b0: "slugify txt \<notin> snd ` set q" using assms(2) by simp
      have bk: "base @ CHR ''-'' # str_nat k \<notin> snd ` set q" if "2 \<le> k" "k \<le> length es" for k
      proof -
        have "?P k \<in> set (map ?P [1..<Suc (length es)])"
          using that by (intro mem) simp_all
        with free have "?P k \<notin> snd ` set q" by blast
        moreover have "k \<noteq> 1" using that(1) by auto
        ultimately show ?thesis by simp
      qed
      from save_fresh [of e "txt" slugify q, OF e b0 nb] assms(2)
      obtain e' where s: "save slugify q e = Inr (e', q @ [(fresh_pk q, base)])"
        and se: "slug e' = base" by auto
      let ?q = "q @ [(fresh_pk q, base)]"
      have "\<exists>es' q'. save_all slugify ?q es1 = Inr (es', q')
              \<and> map slug es' = map (\<lambda>k. base @ CHR ''-'' # str_nat k) [2..<2 + length es1]"
      proof (rule run_from)
        show "\<forall>e\<in>set es1. slug e = [] \<and> pk e = None \<and> slug_txt e = Some txt"
          using assms(1) Cons by simp
        show "slugify txt = base" by (rule assms(2))
        show "base \<in> snd ` set ?q" by simp
        show "(2::nat) \<le> 2" by simp
        show "\<forall>k. 2 \<le> k \<and> k < 2 \<longrightarrow> base @ CHR ''-'' # str_nat k \<in> snd ` set ?q" by auto
        show "\<forall>k. 2 \<le> k \<and> k < 2 + length es1 \<longrightarrow> base @ CHR ''-'' # str_nat k \<notin> snd ` set ?q"
        proof (intro allI impI)
          fix k assume "2 \<le> k \<and> k < 2 + length es1"
          then have "2 \<le> k" "k \<le> length es" using Cons by auto
          from bk [OF this] show "base @ CHR ''-'' # str_nat k \<notin> snd ` set ?q" by simp
        qed
        show "es1 \<noteq> [] \<longrightarrow> length base + length (CHR ''-'' # str_nat (2 + length es1 - 1)) \<le> 256"
          using len Cons by simp
      qed
      then obtain es' q' where r: "save_all slugify ?q es1 = Inr (es', q')"
        and m: "map slug es' = map (\<lambda>k. base @ CHR ''-'' # str_nat k) [2..<2 + length es1]"
        by blast
      have "[1..<Suc (length es)] = 1 # [Suc 1..<Suc (length es)]"
        by (rule upt_conv_Cons) (simp add: Cons)
      moreover have "Suc 1 = 2" "Suc (length es) = 2 + length es1" by (simp_all add: Cons)
      ultimately have u: "[1..<Suc (length es)] = 1 # [2..<2 + length es1]" by (simp only:)
      have g: "map ?P [2..<2 + length es1]
          = map (\<lambda>k. base @ CHR ''-'' # str_nat k) [2..<2 + length es1]"
        by (rule map_cong) auto
      have L: "map ?P [1..<Suc (length es)]
          = base # map (\<lambda>k. base @ CHR ''-'' # str_nat k) [2..<2 + length es1]"
        by (simp only: u g list.map if_True simp_thms)
      have R: "saved_slugs slugify q es
          = Inr (base # map (\<lambda>k. base @ CHR ''-'' # str_nat k) [2..<2 + length es1])"
        using s r m se by (simp add: saved_slugs_def Cons)
      show ?thesis by (simp only: L R)
    qed
  qed
qed

theorem same_text_slugs_witness:
  "saved_slugs (\<lambda>t. ''ward-5'') [(7, ''ward-5-9'')]
     (replicate 3 \<lparr>pk = None, slug = [], get_slug_text = None, has_unicode = True,
                   has_str = True, str_self = ''Ward 5''\<rparr>)
   = Inr [''ward-5'', ''ward-5-2'', ''ward-5-3'']"
proof -
  let ?es = "replicate 3 \<lparr>pk = None, slug = [], get_slug_text = None, has_unicode = True,
                   has_str = True, str_self = ''Ward 5''\<rparr>"
  let ?P = "\<lambda>k::nat. if k = 1 then ''ward-5'' else ''ward-5'' @ CHR ''-'' # str_nat k"
  have h1: "\<forall>e\<in>set ?es. slug e = [] \<and> pk e = None \<and> slug_txt e = Some ''Ward 5''"
    by (simp add: slug_txt_def)
  have nb: "''ward-5'' \<noteq> []" by simp
  have h6: "length ''ward-5'' + length (CHR ''-'' # str_nat (length ?es)) \<le> 256"
    by (simp add: str_nat_3)
  have u: "[1..<Suc (length ?es)] = [1, 2, 3]"
    by (simp add: upt_rec)
  have p: "map ?P [1, 2, 3] = [''ward-5'', ''ward-5-2'', ''ward-5-3'']"
    by (simp add: str_nat_2 str_nat_3)
  have free: "set (map ?P [1..<Suc (length ?es)]) \<inter> snd ` set [(7 :: nat, ''ward-5-9'')] = {}"
    by (simp only: u p) simp
  from same_text_slugs [of ?es "''Ward 5''" "\<lambda>t. ''ward-5''" "''ward-5''" "[(7, ''ward-5-9'')]",
      OF h1 refl nb] h6 free
  have "saved_slugs (\<lambda>t. ''ward-5'') [(7, ''ward-5-9'')] ?es = Inr (map ?P [1..<Suc (length ?es)])"
    by blast
  then show ?thesis by (simp only: u p)
qed

text \<open>
  The length bound is needed for the pattern: a base of 255 characters (Django's \<open>slugify\<close> leaves a
  run of the letter a as it is) is cut to 198 characters before \<open>-2\<close> is appended, so
  the second slug is not \<open>base-2\<close>.
\<close>

theorem same_text_slugs_long_base_counterexample:
  "saved_slugs id []
     (replicate 2 \<lparr>pk = None, slug = [], get_slug_text = Some (replicate 255 CHR ''a''),
                   has_unicode = False, has_str = True, str_self = []\<rparr>)
   = Inr [replicate 255 CHR ''a'', replicate 198 CHR ''a'' @ ''-2'']
   \<and> replicate 198 CHR ''a'' @ ''-2'' \<noteq> replicate 255 CHR ''a'' @ ''-2''"
proof
  let ?b = "replicate 255 CHR ''a''"
  let ?c = "replicate 198 CHR ''a'' @ ''-2''"
  let ?e = "\<lparr>pk = None, slug = [], get_slug_text = Some ?b,
                   has_unicode = False, has_str = True, str_self = []\<rparr>"
  let ?q = "[(fresh_pk [], ?b)]"
  have e: "slug ?e = []" "pk ?e = None" "slug_txt ?e = Some ?b" by (simp_all add: slug_txt_def)
  have nb: "id ?b \<noteq> []" by simp
  from save_fresh [of ?e ?b id "[]", OF e _ nb]
  obtain e1 where s1: "save id [] ?e = Inr (e1, ?q)" and se1: "slug e1 = ?b"
    by auto
  have sf: "suffixed (id ?b) 2 = ?c"
    using suffixed_long(1) [of ?b 2] by (simp add: str_nat_2)
  have "length ?c \<noteq> length ?b" by simp
  then have ne: "?c \<noteq> ?b" by (metis (no_types))
  have a4: "id ?b \<in> snd ` set ?q" by simp
  have a6: "\<forall>k. 2 \<le> k \<and> k < (2::nat) \<longrightarrow> suffixed (id ?b) k \<in> snd ` set ?q" by auto
  have a7: "suffixed (id ?b) 2 \<notin> snd ` set ?q" using ne by (simp only: sf) simp
  from save_taken [of ?e ?b id ?q 2, OF e a4 order_refl a6 a7]
  obtain e2 where s2: "save id ?q ?e = Inr (e2, ?q @ [(fresh_pk ?q, ?c)])"
    and se2: "slug e2 = ?c"
    by (auto simp only: sf)
  have r: "replicate 2 ?e = [?e, ?e]" by (simp add: numeral_2_eq_2)
  show "saved_slugs id [] (replicate 2 ?e) = Inr [?b, ?c]"
    unfolding r using s1 s2 se1 se2 by (simp add: saved_slugs_def)
next
  have "length (replicate 198 CHR ''a'' @ ''-2'') \<noteq> length (replicate 255 CHR ''a'' @ ''-2'')"
    by simp
  then show "replicate 198 CHR ''a'' @ ''-2'' \<noteq> replicate 255 CHR ''a'' @ ''-2''"
    by (metis (no_types))
qed

section \<open>Properties of the response shaper\<close>

lemma del_key_Inr: "del_key k d = Inr d' \<longleftrightarrow> d k \<noteq> None \<and> d' = d(k := None)"
  by (auto simp: del_key_def split: option.splits)

lemma del_key_present: "d k \<noteq> None \<Longrightarrow> del_key k d = Inr (d(k := None))"
  by (auto simp: del_key_def split: option.splits)

lemma try_del_eq: "try_del k d = d(k := None)"
  by (auto simp: try_del_def del_key_def split: option.splits)

lemma apply_excludes_eq:
  "apply_excludes excludes objs = map (\<lambda>d. d |` (- set excludes)) objs"
proof (induction excludes arbitrary: objs)
  case Nil
  then show ?case by (simp add: apply_excludes_def)
next
  case (Cons k ks)
  have "apply_excludes (k # ks) objs = apply_excludes ks (map (try_del k) objs)"
    by (simp add: apply_excludes_def)
  also have "\<dots> = map (\<lambda>d. d |` (- set ks)) (map (try_del k) objs)"
    by (rule Cons.IH)
  also have "\<dots> = map (\<lambda>d. d |` (- set (k # ks))) objs"
    by (auto simp: try_del_eq restrict_map_def fun_eq_iff)
  finally show ?case .
qed


lemma detail_present:
  "b ''shape'' \<noteq> None \<Longrightarrow> b ''simple_shape'' \<noteq> None \<Longrightarrow>
     alter_detail_data_to_serialize GET b = Inr (trimmed (get_param GET ''shape_type'' ''simple'') b)"
  by (auto simp: alter_detail_data_to_serialize_def trimmed_def Let_def del_key_def
      split: if_splits sum.splits option.splits)

lemma trim_one_Inr:
  assumes "(if st \<noteq> ''simple'' then del_key ''simple_shape'' obj else Inr obj) = Inr obj1"
    and "(if st \<noteq> ''full'' then del_key ''shape'' obj1 else Inr obj1) = Inr obj2"
  shows "obj2 = trimmed st obj"
  using assms by (auto simp: trimmed_def Let_def del_key_Inr split: if_splits)

lemma trim_one_present:
  assumes "obj ''shape'' \<noteq> None" "obj ''simple_shape'' \<noteq> None"
  shows "(case (if st \<noteq> ''simple'' then del_key ''simple_shape'' obj else Inr obj) of
            Inl err \<Rightarrow> Inl err
          | Inr obj1 \<Rightarrow> (if st \<noteq> ''full'' then del_key ''shape'' obj1 else Inr obj1))
         = Inr (trimmed st obj)"
  using assms by (auto simp: trimmed_def Let_def del_key_def split: option.splits)

lemma trim_objects_Inr:
  "trim_objects st objs = Inr objs' \<Longrightarrow> objs' = map (trimmed st) objs"
proof (induction objs arbitrary: objs')
  case Nil
  then show ?case by simp
next
  case (Cons obj objs)
  from Cons.prems obtain obj1 obj2 os where
    a: "(if st \<noteq> ''simple'' then del_key ''simple_shape'' obj else Inr obj) = Inr obj1"
    and b: "(if st \<noteq> ''full'' then del_key ''shape'' obj1 else Inr obj1) = Inr obj2"
    and c: "trim_objects st objs = Inr os" and d: "objs' = obj2 # os"
    by (auto split: sum.splits)
  from trim_one_Inr [OF a b] Cons.IH [OF c] d show ?case by simp
qed

lemma trim_objects_present:
  "\<forall>obj\<in>set objs. obj ''shape'' \<noteq> None \<and> obj ''simple_shape'' \<noteq> None \<Longrightarrow>
     trim_objects st objs = Inr (map (trimmed st) objs)"
proof (induction objs)
  case Nil
  then show ?case by simp
next
  case (Cons obj objs)
  have p: "obj ''shape'' \<noteq> None" "obj ''simple_shape'' \<noteq> None" using Cons.prems by simp_all
  have r: "trim_objects st objs = Inr (map (trimmed st) objs)" using Cons by simp
  have "(case (if st \<noteq> ''simple'' then del_key ''simple_shape'' obj else Inr obj) of
            Inl err \<Rightarrow> Inl err
          | Inr obj1 \<Rightarrow>
             (case (if st \<noteq> ''full'' then del_key ''shape'' obj1 else Inr obj1) of
               Inl err \<Rightarrow> Inl err
             | Inr obj2 \<Rightarrow> Inr (obj2 # map (trimmed st) objs)))
        = Inr (trimmed st obj # map (trimmed st) objs)"
    using trim_one_present [OF p, of st] by (auto split: sum.splits if_splits)
  then show ?case by (simp only: trim_objects.simps r sum.case list.map)
qed

lemma trimmed_simple: "trimmed ''simple'' d ''shape'' = None"
  by (simp add: trimmed_def)

lemma trimmed_full: "trimmed ''full'' d ''simple_shape'' = None"
  by (simp add: trimmed_def)

lemma trimmed_other:
  "st \<noteq> ''simple'' \<Longrightarrow> st \<noteq> ''full'' \<Longrightarrow>
     trimmed st d = d(''simple_shape'' := None, ''shape'' := None)"
  by (simp add: trimmed_def)

lemma str_split_not_Nil: "str_split sep s \<noteq> []"
  by (induction s) (auto split: list.splits)

lemma list_Inr:
  assumes "alter_list_data_to_serialize GET data = Inr data'"
  shows "objects data' =
     map (\<lambda>d. trimmed (get_param GET ''shape_type'' ''simple'') d
                 |` (- set (str_split CHR '','' (str_strip (get_param GET ''excludes'' [])))))
       (objects data)"
proof -
  let ?st = "get_param GET ''shape_type'' ''simple''"
  let ?ex = "str_split CHR '','' (str_strip (get_param GET ''excludes'' []))"
  from assms obtain objs where t: "trim_objects ?st (objects data) = Inr objs"
    and d: "data' = data\<lparr>objects := apply_excludes ?ex objs\<rparr>"
    by (auto simp: alter_list_data_to_serialize_def Let_def str_split_not_Nil split: sum.splits)
  from trim_objects_Inr [OF t] d show ?thesis
    by (simp add: apply_excludes_eq o_def)
qed

lemma list_after_trim:
  assumes "trim_objects (get_param GET ''shape_type'' ''simple'') (objects data) = Inr objs"
  shows "alter_list_data_to_serialize GET data
     = Inr (data\<lparr>objects := apply_excludes
               (str_split CHR '','' (str_strip (get_param GET ''excludes'' []))) objs\<rparr>)"
  using assms by (simp add: alter_list_data_to_serialize_def Let_def str_split_not_Nil)

lemma strip_bogus: "str_strip ''bogus_field'' = ''bogus_field''"
  by (simp add: str_strip_def isspace_def)

lemma split_bogus: "str_split CHR '','' ''bogus_field'' = [''bogus_field'']"
  by simp

subsection \<open>The claims about shaping\<close>



text \<open>
  C5. The deletions of the exclusion list are total: for every list of names and every
  list of records, a record keeps each field whose name is not in the list, with its
  value, loses each field whose name is in the list, and a name that occurs in no record
  changes nothing. Once the geometry fields have been trimmed the list function returns,
  whatever the \<open>excludes\<close> parameter holds, and it returns for every list of records that
  carry both geometry fields.
\<close>

theorem excludes_best_effort:
  "length (apply_excludes excludes objs) = length objs
   \<and> (\<forall>i<length objs. \<forall>k.
         (apply_excludes excludes objs ! i) k = (if k \<in> set excludes then None else (objs ! i) k))
   \<and> (\<forall>objs'. trim_objects (get_param GET ''shape_type'' ''simple'') (objects data) = Inr objs' \<longrightarrow>
         alter_list_data_to_serialize GET data
           = Inr (data\<lparr>objects := apply_excludes
                    (str_split CHR '','' (str_strip (get_param GET ''excludes'' []))) objs'\<rparr>))
   \<and> ((\<forall>obj\<in>set (objects data). obj ''shape'' \<noteq> None \<and> obj ''simple_shape'' \<noteq> None) \<longrightarrow>
         (\<exists>data'. alter_list_data_to_serialize GET data = Inr data'))"
proof (intro conjI allI impI)
  show "length (apply_excludes excludes objs) = length objs"
    by (simp add: apply_excludes_eq)
next
  fix i k assume "i < length objs"
  then show "(apply_excludes excludes objs ! i) k = (if k \<in> set excludes then None else (objs ! i) k)"
    by (simp add: apply_excludes_eq restrict_map_def)
next
  fix objs'
  assume "trim_objects (get_param GET ''shape_type'' ''simple'') (objects data) = Inr objs'"
  then show "alter_list_data_to_serialize GET data
           = Inr (data\<lparr>objects := apply_excludes
                    (str_split CHR '','' (str_strip (get_param GET ''excludes'' []))) objs'\<rparr>)"
    by (rule list_after_trim)
next
  assume "\<forall>obj\<in>set (objects data). obj ''shape'' \<noteq> None \<and> obj ''simple_shape'' \<noteq> None"
  from trim_objects_present [OF this, of "get_param GET ''shape_type'' ''simple''"]
    list_after_trim [of GET data]
  show "\<exists>data'. alter_list_data_to_serialize GET data = Inr data'" by blast
qed

theorem excludes_best_effort_witness:
  "alter_list_data_to_serialize [''excludes'' \<mapsto> ''bogus_field'']
       \<lparr>meta = (), objects = [[''name'' \<mapsto> ''Austin'', ''shape'' \<mapsto> ''S'', ''simple_shape'' \<mapsto> ''s'']]\<rparr>
     = Inr \<lparr>meta = (), objects = apply_excludes [''bogus_field'']
              [[''name'' \<mapsto> ''Austin'', ''simple_shape'' \<mapsto> ''s'']]\<rparr>
   \<and> (apply_excludes [''bogus_field''] [[''name'' \<mapsto> ''Austin'', ''simple_shape'' \<mapsto> ''s'']] ! 0) ''name''
       = Some ''Austin''
   \<and> (apply_excludes [''bogus_field''] [[''name'' \<mapsto> ''Austin'', ''simple_shape'' \<mapsto> ''s'']] ! 0) ''bogus_field''
       = None"
proof -
  let ?GET = "[''excludes'' \<mapsto> ''bogus_field'']"
  let ?obj = "[''name'' \<mapsto> ''Austin'', ''shape'' \<mapsto> ''S'', ''simple_shape'' \<mapsto> ''s'']"
  let ?obj' = "[''name'' \<mapsto> ''Austin'', ''simple_shape'' \<mapsto> ''s'']"
  let ?data = "\<lparr>meta = (), objects = [?obj]\<rparr>"
  have e: "?obj(''shape'' := None) = ?obj'" by (auto simp: fun_eq_iff)
  have t: "trim_objects (get_param ?GET ''shape_type'' ''simple'') (objects ?data) = Inr [?obj']"
    by (simp add: get_param_def del_key_def e)
  have x: "str_split CHR '','' (str_strip (get_param ?GET ''excludes'' [])) = [''bogus_field'']"
    by (simp add: get_param_def strip_bogus)
  from excludes_best_effort [of "[''bogus_field'']" "[?obj']" ?GET ?data] t x
  show ?thesis by simp
qed

text \<open>
  C10. A \<open>shape_type\<close> other than \<open>simple\<close> and \<open>full\<close>, compared as the strings
  are, is handled on both paths exactly as \<open>none\<close>: nothing is rejected, and both geometry
  fields are deleted from every record.
\<close>

theorem unknown_shape_type_as_none:
  assumes "v \<noteq> ''simple''" "v \<noteq> ''full''"
  shows "alter_detail_data_to_serialize (GET(''shape_type'' \<mapsto> v)) b
           = alter_detail_data_to_serialize (GET(''shape_type'' \<mapsto> ''none'')) b
       \<and> alter_list_data_to_serialize (GET(''shape_type'' \<mapsto> v)) data
           = alter_list_data_to_serialize (GET(''shape_type'' \<mapsto> ''none'')) data
       \<and> (b ''shape'' \<noteq> None \<and> b ''simple_shape'' \<noteq> None \<longrightarrow>
            alter_detail_data_to_serialize (GET(''shape_type'' \<mapsto> v)) b
              = Inr (b(''simple_shape'' := None, ''shape'' := None)))
       \<and> ((\<forall>obj\<in>set (objects data). obj ''shape'' \<noteq> None \<and> obj ''simple_shape'' \<noteq> None) \<longrightarrow>
            (\<exists>data'. alter_list_data_to_serialize (GET(''shape_type'' \<mapsto> v)) data = Inr data'
               \<and> length (objects data') = length (objects data)
               \<and> (\<forall>obj\<in>set (objects data'). obj ''shape'' = None \<and> obj ''simple_shape'' = None)))"
proof -
  let ?G = "GET(''shape_type'' \<mapsto> v)"
  have g: "get_param ?G ''shape_type'' ''simple'' = v" by (simp add: get_param_def)
  have gn: "get_param (GET(''shape_type'' \<mapsto> ''none'')) ''shape_type'' ''simple'' = ''none''"
    by (simp add: get_param_def)
  have ex: "get_param ?G ''excludes'' [] = get_param (GET(''shape_type'' \<mapsto> ''none'')) ''excludes'' []"
    by (simp add: get_param_def)
  have tr: "trim_objects v objs = trim_objects ''none'' objs" for objs :: "'c bundle_data list"
    using assms by (induction objs) (auto split: sum.splits)
  have c1: "alter_detail_data_to_serialize ?G b
           = alter_detail_data_to_serialize (GET(''shape_type'' \<mapsto> ''none'')) b"
    using assms by (auto simp: alter_detail_data_to_serialize_def g gn split: sum.splits)
  have c2: "alter_list_data_to_serialize ?G data
           = alter_list_data_to_serialize (GET(''shape_type'' \<mapsto> ''none'')) data"
    by (simp only: alter_list_data_to_serialize_def g gn ex Let_def tr [of "objects data"])
  have c3: "b ''shape'' \<noteq> None \<and> b ''simple_shape'' \<noteq> None \<longrightarrow>
            alter_detail_data_to_serialize ?G b
              = Inr (b(''simple_shape'' := None, ''shape'' := None))"
    using detail_present [of b ?G] assms by (simp add: g trimmed_other)
  have c4: "(\<forall>obj\<in>set (objects data). obj ''shape'' \<noteq> None \<and> obj ''simple_shape'' \<noteq> None) \<longrightarrow>
            (\<exists>data'. alter_list_data_to_serialize ?G data = Inr data'
               \<and> length (objects data') = length (objects data)
               \<and> (\<forall>obj\<in>set (objects data'). obj ''shape'' = None \<and> obj ''simple_shape'' = None))"
  proof
    assume "\<forall>obj\<in>set (objects data). obj ''shape'' \<noteq> None \<and> obj ''simple_shape'' \<noteq> None"
    from trim_objects_present [OF this, of v] list_after_trim [of ?G data]
    obtain data' where d: "alter_list_data_to_serialize ?G data = Inr data'"
      by (auto simp: g)
    from list_Inr [OF d] have o: "objects data' =
       map (\<lambda>d. trimmed v d |` (- set (str_split CHR '','' (str_strip (get_param ?G ''excludes'' [])))))
         (objects data)"
      by (simp only: g)
    have "\<forall>obj\<in>set (objects data'). obj ''shape'' = None \<and> obj ''simple_shape'' = None"
      unfolding o using assms by (auto simp: trimmed_other restrict_map_def)
    moreover have "length (objects data') = length (objects data)" unfolding o by simp
    ultimately show "\<exists>data'. alter_list_data_to_serialize ?G data = Inr data'
               \<and> length (objects data') = length (objects data)
               \<and> (\<forall>obj\<in>set (objects data'). obj ''shape'' = None \<and> obj ''simple_shape'' = None)"
      using d by blast
  qed
  show ?thesis by (intro conjI c1 c2 c3 c4)
qed

theorem unknown_shape_type_as_none_witness:
  "alter_detail_data_to_serialize [''shape_type'' \<mapsto> ''Simple'']
       [''name'' \<mapsto> ''Austin'', ''shape'' \<mapsto> ''S'', ''simple_shape'' \<mapsto> ''s'']
     = Inr ([''name'' \<mapsto> ''Austin'', ''shape'' \<mapsto> ''S'', ''simple_shape'' \<mapsto> ''s'']
             (''simple_shape'' := None, ''shape'' := None))
   \<and> alter_detail_data_to_serialize [''shape_type'' \<mapsto> ''Simple'']
       [''name'' \<mapsto> ''Austin'', ''shape'' \<mapsto> ''S'', ''simple_shape'' \<mapsto> ''s'']
     = alter_detail_data_to_serialize [''shape_type'' \<mapsto> ''none'']
       [''name'' \<mapsto> ''Austin'', ''shape'' \<mapsto> ''S'', ''simple_shape'' \<mapsto> ''s'']"
proof -
  have a: "''Simple'' \<noteq> ''simple''" "''Simple'' \<noteq> ''full''" by simp_all
  have p: "[''name'' \<mapsto> ''Austin'', ''shape'' \<mapsto> ''S'', ''simple_shape'' \<mapsto> ''s''] ''shape'' \<noteq> None
     \<and> [''name'' \<mapsto> ''Austin'', ''shape'' \<mapsto> ''S'', ''simple_shape'' \<mapsto> ''s''] ''simple_shape'' \<noteq> None"
    by simp
  from unknown_shape_type_as_none [OF a, of Map.empty
      "[''name'' \<mapsto> ''Austin'', ''shape'' \<mapsto> ''S'', ''simple_shape'' \<mapsto> ''s'']"] p
  show ?thesis by blast
qed

text \<open>
  C4. The detail path never reads the \<open>excludes\<close> parameter: for the request
  \<open>excludes=name\<close> the record of the detail response still has its \<open>name\<close>, while
  the same record in a list response has lost it.
\<close>

theorem detail_ignores_excludes:
  "(case alter_detail_data_to_serialize [''excludes'' \<mapsto> ''name'']
           [''name'' \<mapsto> ''Austin'', ''shape'' \<mapsto> ''S'', ''simple_shape'' \<mapsto> ''s''] of
      Inl err \<Rightarrow> None
    | Inr b' \<Rightarrow> b' ''name'') = Some ''Austin''
   \<and> (case alter_list_data_to_serialize [''excludes'' \<mapsto> ''name'']
           \<lparr>meta = (), objects = [[''name'' \<mapsto> ''Austin'', ''shape'' \<mapsto> ''S'', ''simple_shape'' \<mapsto> ''s'']]\<rparr> of
      Inl err \<Rightarrow> []
    | Inr data' \<Rightarrow> map (\<lambda>obj. obj ''name'') (objects data')) = [None]"
proof
  show "(case alter_detail_data_to_serialize [''excludes'' \<mapsto> ''name'']
           [''name'' \<mapsto> ''Austin'', ''shape'' \<mapsto> ''S'', ''simple_shape'' \<mapsto> ''s''] of
      Inl err \<Rightarrow> None
    | Inr b' \<Rightarrow> b' ''name'') = Some ''Austin''"
    by (simp add: alter_detail_data_to_serialize_def get_param_def del_key_def)
next
  have x: "str_split CHR '','' (str_strip (get_param [''excludes'' \<mapsto> ''name''] ''excludes'' []))
      = [''name'']"
    by (simp add: get_param_def str_strip_def isspace_def)
  show "(case alter_list_data_to_serialize [''excludes'' \<mapsto> ''name'']
           \<lparr>meta = (), objects = [[''name'' \<mapsto> ''Austin'', ''shape'' \<mapsto> ''S'', ''simple_shape'' \<mapsto> ''s'']]\<rparr> of
      Inl err \<Rightarrow> []
    | Inr data' \<Rightarrow> map (\<lambda>obj. obj ''name'') (objects data')) = [None]"
  proof -
    let ?GET = "[''excludes'' \<mapsto> ''name'']"
    let ?obj = "[''name'' \<mapsto> ''Austin'', ''shape'' \<mapsto> ''S'', ''simple_shape'' \<mapsto> ''s'']"
    let ?data = "\<lparr>meta = (), objects = [?obj]\<rparr>"
    have t: "trim_objects (get_param ?GET ''shape_type'' ''simple'') (objects ?data)
        = Inr [?obj(''shape'' := None)]"
      by (simp add: get_param_def del_key_def)
    have "alter_list_data_to_serialize ?GET ?data
        = Inr (?data\<lparr>objects := apply_excludes [''name''] [?obj(''shape'' := None)]\<rparr>)"
      using list_after_trim [OF t] by (simp only: x)
    then show ?thesis by (simp add: apply_excludes_eq)
  qed
qed

section \<open>Properties of the query translator\<close>

lemma re_match_no_digit:
  "rng = [] \<or> \<not> is_digit (hd rng) \<Longrightarrow> re_match_digits rng = None"
  by (cases rng) (auto simp: re_match_digits_def)

lemma re_match_leading:
  assumes "ds \<noteq> []" "\<forall>c\<in>set ds. is_digit c" "u = [] \<or> \<not> is_digit (hd u)"
  shows "re_match_digits (ds @ u) = Some ds"
proof -
  have "takeWhile is_digit u = []" using assms(3) by (cases u) auto
  then have "takeWhile is_digit (ds @ u) = ds" using assms(2) by (simp add: takeWhile_append2)
  with assms(1) show ?thesis by (simp add: re_match_digits_def)
qed

lemma add_near_no_digit:
  assumes "filters ''near'' = Some v" "str_split CHR '','' v = [lat, lon, rng]"
    and "rng = [] \<or> \<not> is_digit (hd rng)"
  shows "add_near D filters orm = Inl AttributeError"
  using assms(1,2) re_match_no_digit [OF assms(3)] by (simp add: add_near_def)

lemma add_near_parsed:
  assumes "filters ''near'' = Some v" "str_split CHR '','' v = [lat, lon, ds @ u]"
    and "ds \<noteq> []" "\<forall>c\<in>set ds. is_digit c" "u = [] \<or> \<not> is_digit (hd u)"
    and "D u (int_of_digits ds) = Inr dist"
  shows "add_near D filters orm
     = Inr (orm(''shape__distance_lte'' \<mapsto> PointDistance (''POINT('' @ lon @ '' '' @ lat @ '')'') dist))"
  using assms(1,2,6) re_match_leading [OF assms(3,4,5)] by (simp add: add_near_def Let_def)

lemma add_sets_Inr: "\<exists>orm'. add_sets filters orm = Inr orm'"
  by (simp add: add_sets_def split: option.splits)

lemma add_contains_ok:
  assumes "\<forall>c. filters ''contains'' = Some c \<longrightarrow> length (str_split CHR '','' c) = 2"
  shows "\<exists>orm'. add_contains filters orm = Inr orm'"
proof (cases "filters ''contains''")
  case None
  then show ?thesis by (simp add: add_contains_def)
next
  case (Some c)
  with assms have "length (str_split CHR '','' c) = 2" by simp
  then obtain lat lon where "str_split CHR '','' c = [lat, lon]"
    by (cases "str_split CHR '','' c" rule: list.exhaust)
       (auto simp: length_Suc_conv)
  with Some show ?thesis by (simp add: add_contains_def)
qed

lemma add_intersects_keeps:
  "add_intersects get_shape filters orm = Inr orm' \<Longrightarrow>
     orm' ''shape__distance_lte'' = orm ''shape__distance_lte''"
  by (auto simp: add_intersects_def split: option.splits sum.splits)

subsection \<open>The claims about the \<open>near\<close> filter\<close>

text \<open>
  C2. A \<open>near\<close> filter of three pieces whose third piece does not start with a digit
  never yields filters: \<open>build_filters\<close> raises. When tastypie's own \<open>build_filters\<close>
  returns and a \<open>contains\<close> filter, if present, has two pieces, the exception is the
  \<open>AttributeError\<close> of \<open>.group(1)\<close> on the \<open>None\<close> that \<open>re.match\<close> returned.
\<close>

theorem near_without_digit_fails:
  fixes super_build_filters :: "params \<Rightarrow> error + (string \<rightharpoonup> ('d, 'g, 'o) orm_value)"
  assumes "filters ''near'' = Some v" "str_split CHR '','' v = [lat, lon, rng]"
    and "rng = [] \<or> \<not> is_digit (hd rng)"
  shows "(\<forall>orm'. build_filters super_build_filters D get_shape (Some filters) \<noteq> Inr orm')
       \<and> ((\<exists>orm. super_build_filters filters = Inr orm)
            \<and> (\<forall>c. filters ''contains'' = Some c \<longrightarrow> length (str_split CHR '','' c) = 2)
          \<longrightarrow> build_filters super_build_filters D get_shape (Some filters) = Inl AttributeError)"
proof (intro conjI allI impI)
  fix orm'
  show "build_filters super_build_filters D get_shape (Some filters) \<noteq> Inr orm'"
  proof
    assume "build_filters super_build_filters D get_shape (Some filters) = Inr orm'"
    then obtain orm2 orm3 :: "string \<rightharpoonup> ('d, 'g, 'o) orm_value"
      where n: "add_near D filters orm2 = Inr orm3"
      by (auto simp: build_filters_def and_then_def split: sum.splits)
    with add_near_no_digit [where filters = filters and D = D and orm = orm2, OF assms]
    show False by simp
  qed
next
  assume a: "(\<exists>orm. super_build_filters filters = Inr orm)
            \<and> (\<forall>c. filters ''contains'' = Some c \<longrightarrow> length (str_split CHR '','' c) = 2)"
  then obtain orm where s: "super_build_filters filters = Inr orm" by blast
  obtain orm1 where s1: "add_sets filters orm = Inr orm1"
    using add_sets_Inr [of filters orm] by blast
  obtain orm2 where s2: "add_contains filters orm1 = Inr orm2"
    using add_contains_ok [of filters orm1] a by blast
  show "build_filters super_build_filters D get_shape (Some filters) = Inl AttributeError"
    using s s1 s2 add_near_no_digit [where filters = filters and D = D and orm = orm2, OF assms]
    by (simp add: build_filters_def and_then_def)
qed

theorem near_without_digit_fails_witness:
  "build_filters no_inherited_filters D_kwargs no_boundary (Some [''near'' \<mapsto> ''41.88,-87.63,.5mi''])
     = Inl AttributeError"
proof -
  have s: "str_split CHR '','' ''41.88,-87.63,.5mi'' = [''41.88'', ''-87.63'', ''.5mi'']"
    by simp
  have d: "''.5mi'' = [] \<or> \<not> is_digit (hd ''.5mi'')" by (simp add: is_digit_def)
  have n: "[''near'' \<mapsto> ''41.88,-87.63,.5mi''] ''near'' = Some ''41.88,-87.63,.5mi''" by simp
  from near_without_digit_fails [where filters = "[''near'' \<mapsto> ''41.88,-87.63,.5mi'']"
      and super_build_filters = no_inherited_filters and D = D_kwargs and get_shape = no_boundary,
      OF n s d]
  show ?thesis by (simp add: no_inherited_filters_def)
qed

text \<open>
  For the request \<open>near=41.88,-87.63,mi\<close> the result is that \<open>AttributeError\<close>: the
  code has no error of its own for a malformed filter.
\<close>

theorem near_without_digit_counterexample:
  "build_filters no_inherited_filters D_kwargs no_boundary (Some [''near'' \<mapsto> ''41.88,-87.63,mi''])
     = Inl AttributeError"
  by (simp add: build_filters_def and_then_def no_inherited_filters_def add_sets_def
      add_contains_def add_near_def re_match_digits_def is_digit_def)

text \<open>
  C8. For a \<open>near\<close> filter \<open>lat,lon,range\<close> whose range is a non-empty run of digits
  followed by a rest that does not start with a digit, the match is the run of digits, the
  unit is the rest, and the entry \<open>shape__distance_lte\<close> of the filters is the point
  \<open>POINT(lon lat)\<close> with the distance that \<open>D\<close> builds from the unit and the integer
  value of the digits. For \<open>near=41.88,-87.63,5mi\<close> these are \<open>mi\<close> and 5.
\<close>

theorem near_parsed:
  assumes "filters ''near'' = Some v" "str_split CHR '','' v = [lat, lon, ds @ u]"
    and "ds \<noteq> []" "\<forall>c\<in>set ds. is_digit c" "u = [] \<or> \<not> is_digit (hd u)"
    and "D u (int_of_digits ds) = Inr dist"
    and "super_build_filters filters = Inr orm"
    and "\<forall>c. filters ''contains'' = Some c \<longrightarrow> length (str_split CHR '','' c) = 2"
    and "\<forall>s. filters ''intersects'' = Some s \<longrightarrow> (\<exists>g. get_shape s = Inr g)"
  shows "re_match_digits (ds @ u) = Some ds \<and> drop (length ds) (ds @ u) = u
       \<and> (\<exists>orm'. build_filters super_build_filters D get_shape (Some filters) = Inr orm'
            \<and> orm' ''shape__distance_lte''
                = Some (PointDistance (''POINT('' @ lon @ '' '' @ lat @ '')'') dist))"
proof (intro conjI)
  show "re_match_digits (ds @ u) = Some ds" by (rule re_match_leading [OF assms(3,4,5)])
  show "drop (length ds) (ds @ u) = u" by simp
  obtain orm1 where s1: "add_sets filters orm = Inr orm1"
    using add_sets_Inr [of filters orm] by blast
  obtain orm2 where s2: "add_contains filters orm1 = Inr orm2"
    using add_contains_ok [of filters orm1] assms(8) by blast
  let ?orm3 = "orm2(''shape__distance_lte'' \<mapsto> PointDistance (''POINT('' @ lon @ '' '' @ lat @ '')'') dist)"
  have s3: "add_near D filters orm2 = Inr ?orm3"
    by (rule add_near_parsed [where filters = filters and D = D, OF assms(1-6)])
  obtain orm4 where s4: "add_intersects get_shape filters ?orm3 = Inr orm4"
    using assms(9) by (cases "filters ''intersects''") (auto simp: add_intersects_def)
  have "build_filters super_build_filters D get_shape (Some filters) = Inr orm4"
    using assms(7) s1 s2 s3 s4 by (simp add: build_filters_def and_then_def)
  moreover have "orm4 ''shape__distance_lte''
      = Some (PointDistance (''POINT('' @ lon @ '' '' @ lat @ '')'') dist)"
    using add_intersects_keeps [OF s4] by simp
  ultimately show "\<exists>orm'. build_filters super_build_filters D get_shape (Some filters) = Inr orm'
            \<and> orm' ''shape__distance_lte''
                = Some (PointDistance (''POINT('' @ lon @ '' '' @ lat @ '')'') dist)"
    by blast
qed

theorem near_parsed_witness:
  "\<exists>orm'. build_filters no_inherited_filters D_kwargs no_boundary
             (Some [''near'' \<mapsto> ''41.88,-87.63,5mi'']) = Inr orm'
     \<and> orm' ''shape__distance_lte'' = Some (PointDistance ''POINT(-87.63 41.88)'' (''mi'', 5))"
proof -
  have s: "str_split CHR '','' ''41.88,-87.63,5mi'' = [''41.88'', ''-87.63'', ''5'' @ ''mi'']"
    by simp
  have n: "[''near'' \<mapsto> ''41.88,-87.63,5mi''] ''near'' = Some ''41.88,-87.63,5mi''" by simp
  have ds: "''5'' \<noteq> []" "\<forall>c\<in>set ''5''. is_digit c" "''mi'' = [] \<or> \<not> is_digit (hd ''mi'')"
    by (simp_all add: is_digit_def)
  have D: "D_kwargs ''mi'' (int_of_digits ''5'') = Inr (''mi'', 5)"
    by (simp add: D_kwargs_def int_of_digits_def)
  have sup: "no_inherited_filters [''near'' \<mapsto> ''41.88,-87.63,5mi''] = Inr Map.empty"
    by (simp add: no_inherited_filters_def)
  have c: "\<forall>c. [''near'' \<mapsto> ''41.88,-87.63,5mi''] ''contains'' = Some c \<longrightarrow>
      length (str_split CHR '','' c) = 2" by simp
  have i: "\<forall>s. [''near'' \<mapsto> ''41.88,-87.63,5mi''] ''intersects'' = Some s \<longrightarrow>
      (\<exists>g. no_boundary s = Inr g)" by simp
  from near_parsed [where filters = "[''near'' \<mapsto> ''41.88,-87.63,5mi'']"
      and super_build_filters = no_inherited_filters and D = D_kwargs and get_shape = no_boundary,
      OF n s ds D sup c i]
  show ?thesis by simp
qed

end
